theory Spec2Isabelle
  imports Main "HOL-Library.Sublist"
begin

section \<open>Data model of \<open>lib/util/manifest_filter.js\<close>\<close>

text \<open>
  The externs \<open>shaka.extern.Stream\<close>, \<open>Variant\<close>, \<open>Period\<close> and \<open>Manifest\<close> carry many
  fields; the filters read only \<open>mimeType\<close>, \<open>codecs\<close>, \<open>audio\<close>, \<open>video\<close>, \<open>variants\<close> and
  \<open>periods\<close>. Each object is an extensible record: the fields the code reads are named, all
  the others live in the record's \<open>more\<close> part (\<open>Period.more\<close>, \<open>Manifest.more\<close>, ...), so a
  frame property can speak about them. A nullable reference (\<open>variant.audio\<close>) is an
  \<open>option\<close>.
\<close>

record Stream =
  mimeType :: string
  codecs :: string

record 's Variant =
  audio :: "'s Stream_scheme option"
  video :: "'s Stream_scheme option"

record ('s, 'v) Period =
  variants :: "('s, 'v) Variant_scheme list"

record ('s, 'v, 'p) Manifest =
  periods :: "('s, 'v, 'p) Period_scheme list"

subsection \<open>\<open>String.prototype.split\<close> with a one-character separator\<close>

text \<open>
  \<open>s.split('.')\<close> cuts \<open>s\<close> at every occurrence of the separator and returns all the pieces,
  empty ones included; a string without the separator (the empty string too) gives the
  one-element array holding the string itself.
\<close>

function split :: "char \<Rightarrow> string \<Rightarrow> string list" where
  "split sep s =
     (case dropWhile (\<lambda>c. c \<noteq> sep) s of
        [] \<Rightarrow> [takeWhile (\<lambda>c. c \<noteq> sep) s]
      | _ # rest \<Rightarrow> takeWhile (\<lambda>c. c \<noteq> sep) s # split sep rest)"
  by pat_completeness auto
termination
proof (relation "measure (\<lambda>(sep, s). length s)")
  show "wf (measure (\<lambda>(sep, s). length s))" by simp
next
  fix sep :: char and s :: string and x rest
  assume "dropWhile (\<lambda>c. c \<noteq> sep) s = x # rest"
  then have "length (dropWhile (\<lambda>c. c \<noteq> sep) s) = Suc (length rest)" by simp
  moreover have "length (dropWhile (\<lambda>c. c \<noteq> sep) s) \<le> length s"
    by (rule length_dropWhile_le)
  ultimately show "((sep, rest), (sep, s)) \<in> measure (\<lambda>(sep, s). length s)" by simp
qed

declare split.simps [simp del]

text \<open>
  \<open>codecs.split('.')[0]\<close>. The array \<open>split\<close> returns is never empty (lemma
  \<open>split_not_Nil\<close> below), so index 0 is always in range and \<open>hd\<close> reads it.
\<close>

definition codecBase :: "string \<Rightarrow> string" where
  "codecBase cs = hd (split (CHR ''.'') cs)"

section \<open>\<open>VariantCodecSummary\<close>\<close>

text \<open>The four private fields; \<open>null\<close> is \<open>None\<close>.\<close>

record VariantCodecSummary =
  audioMime :: "string option"
  audioCodec :: "string option"
  videoMime :: "string option"
  videoCodec :: "string option"

text \<open>The constructor: \<open>audio ? audio.mimeType : null\<close> and so on.\<close>

definition newVariantCodecSummary :: "('s, 'v) Variant_scheme \<Rightarrow> VariantCodecSummary" where
  "newVariantCodecSummary variant =
     \<lparr> audioMime = (case audio variant of None \<Rightarrow> None | Some a \<Rightarrow> Some (mimeType a)),
       audioCodec = (case audio variant of None \<Rightarrow> None | Some a \<Rightarrow> Some (codecBase (codecs a))),
       videoMime = (case video variant of None \<Rightarrow> None | Some v \<Rightarrow> Some (mimeType v)),
       videoCodec = (case video variant of None \<Rightarrow> None | Some v \<Rightarrow> Some (codecBase (codecs v))) \<rparr>"

text \<open>
  JavaScript's \<open>==\<close> on two values that are each a string or \<open>null\<close>: \<open>null == null\<close>,
  two strings are compared by content, and \<open>null\<close> is never \<open>==\<close> to a string (not even to
  the empty one).
\<close>

fun looseEquals :: "string option \<Rightarrow> string option \<Rightarrow> bool" where
  "looseEquals None None = True"
| "looseEquals (Some a) (Some b) = (a = b)"
| "looseEquals _ _ = False"

definition equals :: "VariantCodecSummary \<Rightarrow> VariantCodecSummary \<Rightarrow> bool" where
  "equals this other =
     (looseEquals (audioMime this) (audioMime other) \<and>
      looseEquals (audioCodec this) (audioCodec other) \<and>
      looseEquals (videoMime this) (videoMime other) \<and>
      looseEquals (videoCodec this) (videoCodec other))"

section \<open>\<open>VariantCodecSummarySet\<close>\<close>

text \<open>The set object is its array \<open>all_\<close>, in insertion order.\<close>

type_synonym VariantCodecSummarySet = "VariantCodecSummary list"

text \<open>\<open>this.all_.some((x) => summary.equals(x))\<close>\<close>

definition contains :: "VariantCodecSummarySet \<Rightarrow> VariantCodecSummary \<Rightarrow> bool" where
  "contains all summary = list_ex (\<lambda>x. equals summary x) all"

text \<open>\<open>if (!this.contains(summary)) this.all_.push(summary)\<close>\<close>

definition add :: "VariantCodecSummarySet \<Rightarrow> VariantCodecSummary \<Rightarrow> VariantCodecSummarySet" where
  "add all summary = (if \<not> contains all summary then all @ [summary] else all)"

text \<open>
  \<open>includeAll\<close> when \<open>other\<close> is a different object from \<open>this\<close>: the loop runs over the
  items of \<open>other.all_\<close>, which it does not change.
\<close>

definition includeAll :: "VariantCodecSummarySet \<Rightarrow> VariantCodecSummarySet \<Rightarrow> VariantCodecSummarySet" where
  "includeAll all other = foldl add all other"

text \<open>\<open>this.all_ = this.all_.filter((x) => other.contains(x))\<close>\<close>

definition onlyKeep :: "VariantCodecSummarySet \<Rightarrow> VariantCodecSummarySet \<Rightarrow> VariantCodecSummarySet" where
  "onlyKeep all other = filter (\<lambda>x. contains other x) all"

text \<open>A fresh set, then one \<open>add\<close> per variant, in the order of the list.\<close>

definition fromVariants :: "('s, 'v) Variant_scheme list \<Rightarrow> VariantCodecSummarySet" where
  "fromVariants vs = foldl (\<lambda>set variant. add set (newVariantCodecSummary variant)) [] vs"

subsection \<open>The set operations on a store, where \<open>this\<close> and \<open>other\<close> may be one object\<close>

text \<open>
  A store maps the reference of a set object to the contents of its \<open>all_\<close>. The methods
  take the references, so \<open>A.includeAll(A)\<close> and \<open>A.onlyKeep(A)\<close> are the calls with
  \<open>this = other\<close>. The \<open>for ... of\<close> loop of \<open>includeAll\<close> runs on the array iterator, which
  compares its index with the array's current length at every step: when \<open>this\<close> is
  \<open>other\<close>, an item that \<open>add\<close> pushed would be visited later in the same loop.
\<close>

type_synonym store = "nat \<Rightarrow> VariantCodecSummarySet"

definition storeAdd :: "store \<Rightarrow> nat \<Rightarrow> VariantCodecSummary \<Rightarrow> store" where
  "storeAdd h this summary = h(this := add (h this) summary)"

function storeIncludeAllFrom :: "nat \<Rightarrow> store \<Rightarrow> nat \<Rightarrow> nat \<Rightarrow> store" where
  "storeIncludeAllFrom i h this other =
     (if i < length (h other)
      then storeIncludeAllFrom (Suc i) (storeAdd h this (h other ! i)) this other
      else h)"
  by pat_completeness auto
termination
proof (relation "measure (\<lambda>(i, h, this, other). length (h other) - i)")
  show "wf (measure (\<lambda>(i, h, this, other). length (h other) - i))" by simp
next
  fix i :: nat and h :: store and this other :: nat
  assume less: "i < length (h other)"
  have refl: "\<And>a. looseEquals a a"
    by (case_tac a) simp_all
  have "list_ex (\<lambda>x. equals (h other ! i) x) (h other)"
    unfolding list_ex_iff using less by (auto simp: equals_def refl intro!: bexI [of _ "h other ! i"])
  then have "add (h other) (h other ! i) = h other"
    by (simp add: add_def contains_def)
  then have "storeAdd h this (h other ! i) other = h other"
    by (cases "this = other") (simp_all add: storeAdd_def)
  with less show "((Suc i, storeAdd h this (h other ! i), this, other), (i, h, this, other))
      \<in> measure (\<lambda>(i, h, this, other). length (h other) - i)"
    by simp
qed

declare storeIncludeAllFrom.simps [simp del]

definition storeIncludeAll :: "store \<Rightarrow> nat \<Rightarrow> nat \<Rightarrow> store" where
  "storeIncludeAll h this other = storeIncludeAllFrom 0 h this other"

definition storeOnlyKeep :: "store \<Rightarrow> nat \<Rightarrow> nat \<Rightarrow> store" where
  "storeOnlyKeep h this other = h(this := filter (\<lambda>x. contains (h other) x) (h this))"

subsection \<open>The invariant of the set: no two stored summaries are \<open>equals\<close>\<close>

fun pairwiseDistinct :: "VariantCodecSummarySet \<Rightarrow> bool" where
  "pairwiseDistinct [] = True"
| "pairwiseDistinct (x # xs) = (\<not> contains xs x \<and> pairwiseDistinct xs)"

section \<open>\<open>ManifestFilter\<close>\<close>

subsection \<open>\<open>filterByCommonCodecs\<close>\<close>

datatype error = AssertionError string

text \<open>
  Modelled from the spec: \<open>goog.asserts.assert\<close> is required by the file and defined
  elsewhere. The spec has the check "reject it loudly (assertion-style)" and calls the
  outcome a failure that is "not a recoverable runtime error": a false condition raises an
  assertion error that carries the message, a true one does nothing.
\<close>

definition goog_asserts_assert :: "bool \<Rightarrow> string \<Rightarrow> error option" where
  "goog_asserts_assert condition message =
     (if condition then None else Some (AssertionError message))"

text \<open>
  The first loop, with its variables \<open>first\<close> and \<open>common\<close>. In each round \<open>next\<close> is a
  fresh set, a different object from \<open>common\<close>.
\<close>

fun commonLoop ::
  "bool \<Rightarrow> VariantCodecSummarySet \<Rightarrow> ('s, 'v, 'p) Period_scheme list \<Rightarrow> VariantCodecSummarySet"
where
  "commonLoop first common [] = common"
| "commonLoop first common (period # rest) =
     (let next = fromVariants (variants period) in
      if first then commonLoop False (includeAll common next) rest
      else commonLoop first (onlyKeep common next) rest)"

text \<open>
  The function returns nothing and changes the manifest it is given; the model returns the
  manifest as the call leaves it, or the error the assertion raised. The second loop
  assigns a new \<open>variants\<close> array to every period, in order.
\<close>

definition filterByCommonCodecs ::
  "('s, 'v, 'p, 'm) Manifest_scheme \<Rightarrow> error + ('s, 'v, 'p, 'm) Manifest_scheme"
where
  "filterByCommonCodecs manifest =
     (case goog_asserts_assert (length (periods manifest) > 0)
             ''There should be at least be one period'' of
        Some e \<Rightarrow> Inl e
      | None \<Rightarrow>
          (let common = commonLoop True [] (periods manifest) in
           Inr (manifest\<lparr>periods :=
             map (\<lambda>period. period\<lparr>variants :=
                    filter (\<lambda>variant. contains common (newVariantCodecSummary variant))
                      (variants period)\<rparr>)
               (periods manifest)\<rparr>)))"

subsection \<open>\<open>rollingFilter\<close>\<close>

text \<open>
  The injected \<open>filter\<close> is any function of the caller's: it may keep state of its own
  between calls, change the period it is given, and resolve or reject. It is modelled as a
  function of its own state \<open>'w\<close> (everything it can reach apart from the period) and of the
  period, returning the new state, the period as it leaves it, and the rejection reason if
  its promise rejects. Two assumptions of the model: the periods of a manifest are
  different objects, and the filter changes no period but the one it is given (nor does
  anything else change the manifest while \<open>rollingFilter\<close> is suspended).
\<close>

record ('w, 'e, 's, 'v, 'p) filterResult =
  worldOut :: 'w
  periodOut :: "('s, 'v, 'p) Period_scheme"
  rejected :: "'e option"

type_synonym ('w, 'e, 's, 'v, 'p) periodFilter =
  "'w \<Rightarrow> ('s, 'v, 'p) Period_scheme \<Rightarrow> ('w, 'e, 's, 'v, 'p) filterResult"

text \<open>
  Lines 135 to 141: \<open>if (previous) period.variants = period.variants.filter(...)\<close>.
  \<open>previous\<close> is \<open>null\<close> (\<open>None\<close>) or a set object, and an object is truthy whatever its
  \<open>all_\<close> holds, the empty array too.
\<close>

definition adjacencyPrune ::
  "VariantCodecSummarySet option \<Rightarrow> ('s, 'v, 'p) Period_scheme \<Rightarrow> ('s, 'v, 'p) Period_scheme"
where
  "adjacencyPrune previous period =
     (case previous of
        None \<Rightarrow> period
      | Some prev \<Rightarrow>
          period\<lparr>variants :=
            filter (\<lambda>variant. contains prev (newVariantCodecSummary variant)) (variants period)\<rparr>)"

text \<open>
  The loop over \<open>manifest.periods\<close>. It returns the log of the calls of the filter (the
  filter's state and the period at each call, in the order of the calls), the periods as
  the loop leaves them, the filter's last state and the rejection that ended the loop, if
  one did. A rejected \<open>await\<close> throws out of the loop: the periods not yet reached stay as
  they are.
\<close>

fun rollingLoop ::
  "('w, 'e, 's, 'v, 'p) periodFilter \<Rightarrow> 'w \<Rightarrow> VariantCodecSummarySet option \<Rightarrow>
   ('s, 'v, 'p) Period_scheme list \<Rightarrow>
   ('w \<times> ('s, 'v, 'p) Period_scheme) list \<times> ('s, 'v, 'p) Period_scheme list \<times> 'w \<times> 'e option"
where
  "rollingLoop filterFn w previous [] = ([], [], w, None)"
| "rollingLoop filterFn w previous (period # rest) =
     (let pruned = adjacencyPrune previous period;
          res = filterFn w pruned
      in case rejected res of
           Some e \<Rightarrow> ([(w, pruned)], periodOut res # rest, worldOut res, Some e)
         | None \<Rightarrow>
             (case rollingLoop filterFn (worldOut res)
                     (Some (fromVariants (variants (periodOut res)))) rest of
                (log, rest', w', r) \<Rightarrow> ((w, pruned) # log, periodOut res # rest', w', r)))"

record ('w, 'e, 's, 'v, 'p, 'm) rollingOutcome =
  manifestAfter :: "('s, 'v, 'p, 'm) Manifest_scheme"
  worldAfter :: 'w
  calls :: "('w \<times> ('s, 'v, 'p) Period_scheme) list"
  rejection :: "'e option"

text \<open>\<open>previous\<close> starts as \<open>null\<close>. The promise resolves when \<open>rejection\<close> is \<open>None\<close>.\<close>

definition rollingFilter ::
  "('w, 'e, 's, 'v, 'p) periodFilter \<Rightarrow> 'w \<Rightarrow> ('s, 'v, 'p, 'm) Manifest_scheme \<Rightarrow>
   ('w, 'e, 's, 'v, 'p, 'm) rollingOutcome"
where
  "rollingFilter filterFn w manifest =
     (case rollingLoop filterFn w None (periods manifest) of
        (log, ps, w', r) \<Rightarrow>
          \<lparr> manifestAfter = manifest\<lparr>periods := ps\<rparr>, worldAfter = w', calls = log,
            rejection = r \<rparr>)"

section \<open>Example data\<close>

definition mp4Video :: "string \<Rightarrow> Stream" where
  "mp4Video cs = \<lparr> mimeType = ''video/mp4'', codecs = cs \<rparr>"

definition webmVideo :: "string \<Rightarrow> Stream" where
  "webmVideo cs = \<lparr> mimeType = ''video/webm'', codecs = cs \<rparr>"

definition mp4Audio :: "string \<Rightarrow> Stream" where
  "mp4Audio cs = \<lparr> mimeType = ''audio/mp4'', codecs = cs \<rparr>"

definition variantOf :: "Stream option \<Rightarrow> Stream option \<Rightarrow> (unit, unit) Variant_scheme" where
  "variantOf a v = \<lparr> audio = a, video = v \<rparr>"

definition periodOf :: "(unit, unit) Variant_scheme list \<Rightarrow> (unit, unit, unit) Period_scheme" where
  "periodOf vs = \<lparr> variants = vs \<rparr>"

definition manifestOf ::
  "(unit, unit, unit) Period_scheme list \<Rightarrow> (unit, unit, unit, unit) Manifest_scheme" where
  "manifestOf ps = \<lparr> periods = ps \<rparr>"

definition avcSummary :: VariantCodecSummary where
  "avcSummary = newVariantCodecSummary (variantOf None (Some (mp4Video ''avc1.42E01E'')))"

definition vp9Summary :: VariantCodecSummary where
  "vp9Summary = newVariantCodecSummary (variantOf None (Some (webmVideo ''vp09.00.10.08'')))"

definition twoProfiles :: "(unit, unit, unit, unit) Manifest_scheme" where
  "twoProfiles = manifestOf
     [periodOf [variantOf (Some (mp4Audio ''mp4a.40.2'')) (Some (mp4Video ''avc1.42E01E''))],
      periodOf [variantOf (Some (mp4Audio ''mp4a.40.5'')) (Some (mp4Video ''avc1.4D401F''))]]"

definition disjointCodecs :: "(unit, unit, unit, unit) Manifest_scheme" where
  "disjointCodecs = manifestOf
     [periodOf [variantOf None (Some (mp4Video ''avc1.42E01E''))],
      periodOf [variantOf None (Some (webmVideo ''vp09.00.10.08''))]]"

definition mixedCodecs :: "(unit, unit, unit, unit) Manifest_scheme" where
  "mixedCodecs = manifestOf
     [periodOf [variantOf None (Some (mp4Video ''avc1.42E01E'')),
                variantOf None (Some (webmVideo ''vp09.00.10.08''))],
      periodOf [variantOf None (Some (mp4Video ''avc1.4D401F''))]]"

definition keepAll :: "(nat, string, unit, unit, unit) periodFilter" where
  "keepAll n period = \<lparr> worldOut = Suc n, periodOut = period, rejected = None \<rparr>"

definition rejectOnCall :: "nat \<Rightarrow> (nat, string, unit, unit, unit) periodFilter" where
  "rejectOnCall k n period =
     \<lparr> worldOut = Suc n, periodOut = period,
       rejected = (if n = k then Some ''rejected'' else None) \<rparr>"

definition avcVariant :: "(unit, unit) Variant_scheme" where
  "avcVariant = variantOf None (Some (mp4Video ''avc1.42E01E''))"

definition vp9Variant :: "(unit, unit) Variant_scheme" where
  "vp9Variant = variantOf None (Some (webmVideo ''vp09.00.10.08''))"

definition narrowing :: "(unit, unit, unit, unit) Manifest_scheme" where
  "narrowing = manifestOf
     [periodOf [avcVariant, vp9Variant], periodOf [vp9Variant], periodOf [avcVariant]]"

definition alternating :: "(unit, unit, unit, unit) Manifest_scheme" where
  "alternating = manifestOf [periodOf [avcVariant], periodOf [vp9Variant], periodOf [avcVariant]]"

section \<open>Basic facts\<close>

lemma split_not_Nil: "split sep s \<noteq> []"
  by (subst split.simps) (simp split: list.split)

lemma hd_split: "hd (split sep s) = takeWhile (\<lambda>c. c \<noteq> sep) s"
  by (subst split.simps) (simp split: list.split)

lemma codecBase_takeWhile: "codecBase cs = takeWhile (\<lambda>c. c \<noteq> CHR ''.'') cs"
  by (simp add: codecBase_def hd_split)

lemma looseEquals_iff: "looseEquals a b \<longleftrightarrow> a = b"
  by (cases a; cases b) simp_all

lemma equals_iff: "equals a b \<longleftrightarrow> a = b"
  by (auto simp: equals_def looseEquals_iff)

lemma contains_iff: "contains all x \<longleftrightarrow> x \<in> set all"
  by (auto simp: contains_def list_ex_iff equals_iff)

lemma set_add: "set (add all x) = insert x (set all)"
  by (auto simp: add_def contains_iff)

lemma pairwiseDistinct_iff: "pairwiseDistinct all \<longleftrightarrow> distinct all"
  by (induction all) (simp_all add: contains_iff)

lemma distinct_add: "distinct all \<Longrightarrow> distinct (add all x)"
  by (simp add: add_def contains_iff)

lemma add_present: "x \<in> set all \<Longrightarrow> add all x = all"
  by (simp add: add_def contains_iff)

lemma set_includeAll: "set (includeAll all other) = set all \<union> set other"
  unfolding includeAll_def by (induction other arbitrary: all) (simp_all add: set_add)

lemma distinct_includeAll: "distinct all \<Longrightarrow> distinct (includeAll all other)"
  unfolding includeAll_def by (induction other arbitrary: all) (simp_all add: distinct_add)

lemma includeAll_subset: "set other \<subseteq> set all \<Longrightarrow> includeAll all other = all"
  unfolding includeAll_def by (induction other arbitrary: all) (simp_all add: add_present)

lemma set_onlyKeep: "set (onlyKeep all other) = set all \<inter> set other"
  by (auto simp: onlyKeep_def contains_iff)

lemma fromVariants_foldl:
  "foldl (\<lambda>set variant. add set (newVariantCodecSummary variant)) acc vs =
   includeAll acc (map newVariantCodecSummary vs)"
  unfolding includeAll_def by (induction vs arbitrary: acc) simp_all

lemma fromVariants_includeAll: "fromVariants vs = includeAll [] (map newVariantCodecSummary vs)"
  by (simp add: fromVariants_def fromVariants_foldl)

lemma set_fromVariants: "set (fromVariants vs) = newVariantCodecSummary ` set vs"
  by (simp add: fromVariants_includeAll set_includeAll)

lemma distinct_fromVariants: "distinct (fromVariants vs)"
  by (simp add: fromVariants_includeAll distinct_includeAll)


section \<open>Equality of summaries\<close>

lemma takeWhile_sep_suffix:
  "takeWhile (\<lambda>c. c \<noteq> sep) (takeWhile (\<lambda>c. c \<noteq> sep) cs @ sep # rest) =
   takeWhile (\<lambda>c. c \<noteq> sep) cs"
  by (induction cs) simp_all

lemma equals_refl: "equals a a"
  by (simp add: equals_iff)

lemma equals_sym: "equals a b \<Longrightarrow> equals b a"
  by (simp add: equals_iff)

lemma equals_trans: "equals a b \<Longrightarrow> equals b c \<Longrightarrow> equals a c"
  by (simp add: equals_iff)

lemma equals_fields:
  "equals a b \<longleftrightarrow>
     audioMime a = audioMime b \<and> audioCodec a = audioCodec b \<and>
     videoMime a = videoMime b \<and> videoCodec a = videoCodec b"
  by (simp add: equals_def looseEquals_iff)

lemma summary_mime:
  "audioMime (newVariantCodecSummary v) = map_option mimeType (audio v)"
  "videoMime (newVariantCodecSummary v) = map_option mimeType (video v)"
  by (simp_all add: newVariantCodecSummary_def split: option.split)

lemma summary_codec:
  "audioCodec (newVariantCodecSummary v) =
     map_option (\<lambda>s. takeWhile (\<lambda>c. c \<noteq> CHR ''.'') (codecs s)) (audio v)"
  "videoCodec (newVariantCodecSummary v) =
     map_option (\<lambda>s. takeWhile (\<lambda>c. c \<noteq> CHR ''.'') (codecs s)) (video v)"
  by (simp_all add: newVariantCodecSummary_def codecBase_takeWhile split: option.split)

lemma summary_avc1:
  "equals (newVariantCodecSummary (v\<lparr>video := Some (s\<lparr>codecs := ''avc1.42E01E''\<rparr>)\<rparr>))
          (newVariantCodecSummary (v\<lparr>video := Some (s\<lparr>codecs := ''avc1.4D401F''\<rparr>)\<rparr>))"
  by (simp add: equals_iff newVariantCodecSummary_def codecBase_takeWhile)

text \<open>
  C5. \<open>equals\<close> is reflexive, symmetric and transitive, and holds exactly when the four
  fields agree, where \<open>null\<close> agrees with \<open>null\<close> only. The mime fields are the streams' mime
  types and each codec field is the part of the stream's \<open>codecs\<close> string before its first
  \<open>.\<close> (the whole string when it has none), absent when the stream is; so whatever follows
  the first \<open>.\<close> does not count, and two variants with the same audio and the same video
  stream up to the codecs strings \<open>avc1.42E01E\<close> and \<open>avc1.4D401F\<close> have \<open>equals\<close> summaries.
\<close>

theorem VariantCodecSummary_equals_equivalence:
  "equals a a \<and>
   (equals a b \<longrightarrow> equals b a) \<and>
   (equals a b \<longrightarrow> equals b c \<longrightarrow> equals a c) \<and>
   (equals a b \<longleftrightarrow>
      audioMime a = audioMime b \<and> audioCodec a = audioCodec b \<and>
      videoMime a = videoMime b \<and> videoCodec a = videoCodec b) \<and>
   looseEquals None None \<and> \<not> looseEquals None (Some x) \<and> \<not> looseEquals (Some x) None \<and>
   audioMime (newVariantCodecSummary v) = map_option mimeType (audio v) \<and>
   videoMime (newVariantCodecSummary v) = map_option mimeType (video v) \<and>
   audioCodec (newVariantCodecSummary v) =
     map_option (\<lambda>s. takeWhile (\<lambda>c. c \<noteq> CHR ''.'') (codecs s)) (audio v) \<and>
   videoCodec (newVariantCodecSummary v) =
     map_option (\<lambda>s. takeWhile (\<lambda>c. c \<noteq> CHR ''.'') (codecs s)) (video v) \<and>
   codecBase (takeWhile (\<lambda>c. c \<noteq> CHR ''.'') cs @ CHR ''.'' # rest) = codecBase cs \<and>
   equals (newVariantCodecSummary (v\<lparr>video := Some (s\<lparr>codecs := ''avc1.42E01E''\<rparr>)\<rparr>))
          (newVariantCodecSummary (v\<lparr>video := Some (s\<lparr>codecs := ''avc1.4D401F''\<rparr>)\<rparr>))"
proof (intro conjI impI)
  show "equals a a" by (rule equals_refl)
  show "equals b a" if "equals a b" using that by (rule equals_sym)
  show "equals a c" if "equals a b" "equals b c" using that by (rule equals_trans)
  show "equals a b \<longleftrightarrow>
      audioMime a = audioMime b \<and> audioCodec a = audioCodec b \<and>
      videoMime a = videoMime b \<and> videoCodec a = videoCodec b"
    by (rule equals_fields)
  show "looseEquals None None" "\<not> looseEquals None (Some x)" "\<not> looseEquals (Some x) None"
    by simp_all
  show "audioMime (newVariantCodecSummary v) = map_option mimeType (audio v)"
    "videoMime (newVariantCodecSummary v) = map_option mimeType (video v)"
    by (rule summary_mime)+
  show "audioCodec (newVariantCodecSummary v) =
     map_option (\<lambda>s. takeWhile (\<lambda>c. c \<noteq> CHR ''.'') (codecs s)) (audio v)"
    "videoCodec (newVariantCodecSummary v) =
     map_option (\<lambda>s. takeWhile (\<lambda>c. c \<noteq> CHR ''.'') (codecs s)) (video v)"
    by (rule summary_codec)+
  show "codecBase (takeWhile (\<lambda>c. c \<noteq> CHR ''.'') cs @ CHR ''.'' # rest) = codecBase cs"
    by (simp only: codecBase_takeWhile takeWhile_sep_suffix)
  show "equals (newVariantCodecSummary (v\<lparr>video := Some (s\<lparr>codecs := ''avc1.42E01E''\<rparr>)\<rparr>))
          (newVariantCodecSummary (v\<lparr>video := Some (s\<lparr>codecs := ''avc1.4D401F''\<rparr>)\<rparr>))"
    by (rule summary_avc1)
qed

theorem VariantCodecSummary_equals_equivalence_witness:
  "equals (newVariantCodecSummary (variantOf None (Some (mp4Video ''avc1.42E01E''))))
          (newVariantCodecSummary (variantOf None (Some (mp4Video ''avc1.4D401F'')))) \<and>
   equals (newVariantCodecSummary (variantOf None (Some (mp4Video ''avc1.4D401F''))))
          (newVariantCodecSummary (variantOf None (Some (mp4Video ''avc1.640028'')))) \<and>
   equals (newVariantCodecSummary (variantOf None (Some (mp4Video ''avc1.42E01E''))))
          (newVariantCodecSummary (variantOf None (Some (mp4Video ''avc1.640028'')))) \<and>
   equals (newVariantCodecSummary (variantOf None (Some (mp4Video ''avc1.640028''))))
          (newVariantCodecSummary (variantOf None (Some (mp4Video ''avc1.42E01E''))))"
proof -
  let ?a = "newVariantCodecSummary (variantOf None (Some (mp4Video ''avc1.42E01E'')))"
  let ?b = "newVariantCodecSummary (variantOf None (Some (mp4Video ''avc1.4D401F'')))"
  let ?c = "newVariantCodecSummary (variantOf None (Some (mp4Video ''avc1.640028'')))"
  have ab: "equals ?a ?b"
    by (simp add: equals_def newVariantCodecSummary_def variantOf_def mp4Video_def
        codecBase_takeWhile)
  have bc: "equals ?b ?c"
    by (simp add: equals_def newVariantCodecSummary_def variantOf_def mp4Video_def
        codecBase_takeWhile)
  have ac: "equals ?a ?c"
    using VariantCodecSummary_equals_equivalence [of ?a ?b ?c] ab bc by blast
  have ca: "equals ?c ?a"
    using VariantCodecSummary_equals_equivalence [of ?a ?c] ac by blast
  from ab bc ac ca show ?thesis by blast
qed


section \<open>The algebra of the set\<close>

lemma onlyKeep_self: "onlyKeep all all = all"
  by (simp add: onlyKeep_def contains_iff)

lemma includeAll_self: "includeAll all all = all"
  by (simp add: includeAll_subset)

lemma storeAdd_present: "x \<in> set (h this) \<Longrightarrow> storeAdd h this x = h"
  by (simp add: storeAdd_def add_present)

lemma storeIncludeAllFrom_self: "storeIncludeAllFrom i h this this = h"
proof (induction "length (h this) - i" arbitrary: i)
  case 0
  then show ?case by (subst storeIncludeAllFrom.simps) simp
next
  case (Suc n)
  then have less: "i < length (h this)" by simp
  then have "storeAdd h this (h this ! i) = h"
    by (simp add: storeAdd_present)
  moreover have "storeIncludeAllFrom (Suc i) h this this = h"
    using Suc.hyps(1) [of "Suc i"] Suc.hyps(2) by simp
  ultimately show ?case
    using less by (subst storeIncludeAllFrom.simps) simp
qed

lemma storeIncludeAll_self: "storeIncludeAll h this this = h"
  by (simp add: storeIncludeAll_def storeIncludeAllFrom_self)

lemma storeOnlyKeep_self: "storeOnlyKeep h this this = h"
  by (simp add: storeOnlyKeep_def contains_iff)

lemma storeIncludeAllFrom_other:
  "this \<noteq> other \<Longrightarrow>
   storeIncludeAllFrom i h this other = h(this := foldl add (h this) (drop i (h other)))"
proof (induction "length (h other) - i" arbitrary: i h)
  case 0
  then show ?case by (subst storeIncludeAllFrom.simps) simp
next
  case (Suc n)
  then have less: "i < length (h other)" by simp
  let ?h = "storeAdd h this (h other ! i)"
  have hother: "?h other = h other"
    using Suc.prems by (simp add: storeAdd_def)
  have hthis: "?h this = add (h this) (h other ! i)"
    by (simp add: storeAdd_def)
  have "n = length (?h other) - Suc i"
    using Suc.hyps(2) hother by simp
  then have "storeIncludeAllFrom (Suc i) ?h this other =
      ?h(this := foldl add (?h this) (drop (Suc i) (?h other)))"
    using Suc.hyps(1) Suc.prems by blast
  also have "\<dots> = h(this := foldl add (h this) (drop i (h other)))"
    using less Suc.prems by (simp add: hother hthis storeAdd_def Cons_nth_drop_Suc [symmetric])
  finally show ?case
    using less by (subst storeIncludeAllFrom.simps) simp
qed

lemma storeIncludeAll_other:
  "this \<noteq> other \<Longrightarrow> storeIncludeAll h this other = h(this := includeAll (h this) (h other))"
  by (simp add: storeIncludeAll_def storeIncludeAllFrom_other includeAll_def)

lemma fromVariants_Nil: "fromVariants [] = []"
  by (simp add: fromVariants_def)

text \<open>
  C6. For every set \<open>A\<close>: \<open>A.onlyKeep(A)\<close> and \<open>A.includeAll(A)\<close> leave \<open>A\<close> as it is, both
  when the argument is a second set with the same contents and when it is the object
  \<open>A\<close> itself (the calls on the store with \<open>this = other\<close>): the array \<open>all_\<close> is
  unchanged, and so is membership. The set built from the empty variant list contains no
  summary.
\<close>

theorem VariantCodecSummarySet_self_noop:
  "onlyKeep all all = all \<and>
   includeAll all all = all \<and>
   storeOnlyKeep h this this = h \<and>
   storeIncludeAll h this this = h \<and>
   (contains (onlyKeep all all) x \<longleftrightarrow> contains all x) \<and>
   (contains (includeAll all all) x \<longleftrightarrow> contains all x) \<and>
   \<not> contains (fromVariants []) x"
  by (simp add: onlyKeep_self includeAll_self storeOnlyKeep_self storeIncludeAll_self
      fromVariants_Nil contains_def)

lemma distinct_pairs:
  "pairwiseDistinct all \<longleftrightarrow>
   (\<forall>i<length all. \<forall>j<length all. i \<noteq> j \<longrightarrow> \<not> equals (all ! i) (all ! j))"
  by (simp add: pairwiseDistinct_iff distinct_conv_nth equals_iff)

lemma add_add_equal: "equals x y \<Longrightarrow> add (add all x) y = add all x"
  by (simp add: equals_iff add_present set_add)

lemma distinct_onlyKeep: "distinct all \<Longrightarrow> distinct (onlyKeep all other)"
  by (simp add: onlyKeep_def)

lemma distinct_storeIncludeAll:
  "distinct (h this) \<Longrightarrow> distinct (storeIncludeAll h this other this)"
  by (cases "this = other")
     (simp_all add: storeIncludeAll_self storeIncludeAll_other distinct_includeAll)

text \<open>
  C7. No two stored summaries are \<open>equals\<close> (\<open>pairwiseDistinct\<close>, which says so of every
  pair of different positions): the new set has the property, \<open>add\<close> pushes only a summary
  that is not contained, so a second \<open>add\<close> of an \<open>equals\<close> summary changes nothing, and
  \<open>add\<close>, \<open>includeAll\<close> (on another object or on itself), \<open>onlyKeep\<close> keep the property;
  \<open>fromVariants\<close> returns a set that has it.
\<close>

theorem VariantCodecSummarySet_distinct_invariant:
  "(pairwiseDistinct all \<longleftrightarrow>
      (\<forall>i<length all. \<forall>j<length all. i \<noteq> j \<longrightarrow> \<not> equals (all ! i) (all ! j))) \<and>
   pairwiseDistinct [] \<and>
   add all x = (if contains all x then all else all @ [x]) \<and>
   (equals x y \<longrightarrow> add (add all x) y = add all x) \<and>
   (pairwiseDistinct all \<longrightarrow> pairwiseDistinct (add all x)) \<and>
   (pairwiseDistinct all \<longrightarrow> pairwiseDistinct (includeAll all other)) \<and>
   (pairwiseDistinct (h this) \<longrightarrow> pairwiseDistinct (storeIncludeAll h this that this)) \<and>
   (pairwiseDistinct all \<longrightarrow> pairwiseDistinct (onlyKeep all other)) \<and>
   pairwiseDistinct (fromVariants vs)"
proof (intro conjI impI)
  show "pairwiseDistinct all \<longleftrightarrow>
      (\<forall>i<length all. \<forall>j<length all. i \<noteq> j \<longrightarrow> \<not> equals (all ! i) (all ! j))"
    by (rule distinct_pairs)
  show "pairwiseDistinct []" by simp
  show "add all x = (if contains all x then all else all @ [x])"
    by (simp add: add_def)
  show "add (add all x) y = add all x" if "equals x y"
    using that by (rule add_add_equal)
  show "pairwiseDistinct (add all x)" if "pairwiseDistinct all"
    using that by (simp add: pairwiseDistinct_iff distinct_add)
  show "pairwiseDistinct (includeAll all other)" if "pairwiseDistinct all"
    using that by (simp add: pairwiseDistinct_iff distinct_includeAll)
  show "pairwiseDistinct (storeIncludeAll h this that this)" if "pairwiseDistinct (h this)"
    using that by (simp add: pairwiseDistinct_iff distinct_storeIncludeAll)
  show "pairwiseDistinct (onlyKeep all other)" if "pairwiseDistinct all"
    using that by (simp add: pairwiseDistinct_iff distinct_onlyKeep)
  show "pairwiseDistinct (fromVariants vs)"
    by (simp add: pairwiseDistinct_iff distinct_fromVariants)
qed

theorem VariantCodecSummarySet_distinct_invariant_witness:
  "pairwiseDistinct [avcSummary] \<and>
   equals vp9Summary vp9Summary \<and>
   pairwiseDistinct (add [avcSummary] vp9Summary) \<and>
   add (add [avcSummary] vp9Summary) vp9Summary = [avcSummary, vp9Summary] \<and>
   pairwiseDistinct (includeAll [avcSummary] [vp9Summary, avcSummary]) \<and>
   pairwiseDistinct (storeIncludeAll (\<lambda>r. [avcSummary]) 0 0 0) \<and>
   pairwiseDistinct (onlyKeep [avcSummary] [vp9Summary])"
proof -
  have neq: "\<not> equals avcSummary vp9Summary"
    by (simp add: equals_def avcSummary_def vp9Summary_def newVariantCodecSummary_def
        variantOf_def mp4Video_def webmVideo_def)
  have one: "pairwiseDistinct [avcSummary]"
    by (simp add: contains_def)
  have eq: "equals vp9Summary vp9Summary"
    by (simp add: equals_def looseEquals_iff)
  have two: "add [avcSummary] vp9Summary = [avcSummary, vp9Summary]"
    using neq by (simp add: add_def contains_def equals_iff)
  note inst = VariantCodecSummarySet_distinct_invariant
    [of "[avcSummary]" vp9Summary vp9Summary "[vp9Summary, avcSummary]" "\<lambda>r. [avcSummary]" 0 0]
  have a: "pairwiseDistinct (add [avcSummary] vp9Summary)"
    using inst one by blast
  have "add (add [avcSummary] vp9Summary) vp9Summary = add [avcSummary] vp9Summary"
    using inst eq by blast
  then have b: "add (add [avcSummary] vp9Summary) vp9Summary = [avcSummary, vp9Summary]"
    by (simp only: two)
  have c: "pairwiseDistinct (includeAll [avcSummary] [vp9Summary, avcSummary])"
    using inst one by blast
  have d: "pairwiseDistinct (storeIncludeAll (\<lambda>r. [avcSummary]) 0 0 0)"
    using inst one by blast
  have e: "pairwiseDistinct (onlyKeep [avcSummary] [vp9Summary])"
    using VariantCodecSummarySet_distinct_invariant [of "[avcSummary]" _ _ "[vp9Summary]"] one
    by blast
  from one eq a b c d e show ?thesis by blast
qed



section \<open>\<open>filterByCommonCodecs\<close>: the common summaries\<close>

lemma contains_commonLoop_False:
  "contains (commonLoop False common ps) x \<longleftrightarrow>
   contains common x \<and> (\<forall>p\<in>set ps. contains (fromVariants (variants p)) x)"
  by (induction ps arbitrary: common) (auto simp: contains_iff set_onlyKeep)

lemma contains_commonLoop_True:
  "contains (commonLoop True [] (p # ps)) x \<longleftrightarrow>
   (\<forall>q\<in>set (p # ps). contains (fromVariants (variants q)) x)"
  by (simp add: contains_commonLoop_False) (simp add: contains_iff set_includeAll)

lemma contains_common:
  assumes "ps \<noteq> []"
  shows "contains (commonLoop True [] ps) x \<longleftrightarrow>
    (\<forall>j<length ps. contains (fromVariants (variants (ps ! j))) x)"
proof -
  from assms obtain p rest where ps: "ps = p # rest" by (cases ps) auto
  have "contains (commonLoop True [] ps) x \<longleftrightarrow>
      (\<forall>q\<in>set ps. contains (fromVariants (variants q)) x)"
    unfolding ps by (rule contains_commonLoop_True)
  also have "\<dots> \<longleftrightarrow> (\<forall>j<length ps. contains (fromVariants (variants (ps ! j))) x)"
    by (simp add: all_set_conv_all_nth)
  finally show ?thesis .
qed

lemma filterByCommonCodecs_nonempty:
  assumes "periods manifest \<noteq> []"
  shows "filterByCommonCodecs manifest =
    Inr (manifest\<lparr>periods :=
      map (\<lambda>period. period\<lparr>variants :=
             filter (\<lambda>variant. contains (commonLoop True [] (periods manifest))
                       (newVariantCodecSummary variant))
               (variants period)\<rparr>)
        (periods manifest)\<rparr>)"
  using assms by (simp add: filterByCommonCodecs_def goog_asserts_assert_def)

text \<open>
  C1. On a manifest with at least one period \<open>filterByCommonCodecs\<close> returns normally,
  keeps the number of periods, and leaves in period \<open>i\<close> exactly the subsequence of its
  variants whose summary is contained in the set \<open>fromVariants\<close> builds from the variants
  of every period \<open>j\<close> of the manifest as it was given (period \<open>i\<close> is one of them): a
  variant of period \<open>i\<close> remains if and only if its summary is in all these sets.
\<close>

theorem filterByCommonCodecs_keeps_common:
  assumes "periods manifest \<noteq> []"
  shows "\<exists>after. filterByCommonCodecs manifest = Inr after \<and>
     length (periods after) = length (periods manifest) \<and>
     (\<forall>i<length (periods manifest).
        variants (periods after ! i) =
          filter (\<lambda>v. \<forall>j<length (periods manifest).
                    contains (fromVariants (variants (periods manifest ! j)))
                      (newVariantCodecSummary v))
            (variants (periods manifest ! i))) \<and>
     (\<forall>i<length (periods manifest). \<forall>v.
        v \<in> set (variants (periods after ! i)) \<longleftrightarrow>
          v \<in> set (variants (periods manifest ! i)) \<and>
          (\<forall>j<length (periods manifest).
             contains (fromVariants (variants (periods manifest ! j)))
               (newVariantCodecSummary v)))"
proof -
  let ?after = "manifest\<lparr>periods :=
      map (\<lambda>period. period\<lparr>variants :=
             filter (\<lambda>variant. contains (commonLoop True [] (periods manifest))
                       (newVariantCodecSummary variant))
               (variants period)\<rparr>)
        (periods manifest)\<rparr>"
  have run: "filterByCommonCodecs manifest = Inr ?after"
    using assms by (rule filterByCommonCodecs_nonempty)
  have len: "length (periods ?after) = length (periods manifest)"
    by simp
  have vs: "variants (periods ?after ! i) =
          filter (\<lambda>v. \<forall>j<length (periods manifest).
                    contains (fromVariants (variants (periods manifest ! j)))
                      (newVariantCodecSummary v))
            (variants (periods manifest ! i))" if "i < length (periods manifest)" for i
    using that by (simp add: contains_common [OF assms])
  have mem: "v \<in> set (variants (periods ?after ! i)) \<longleftrightarrow>
          v \<in> set (variants (periods manifest ! i)) \<and>
          (\<forall>j<length (periods manifest).
             contains (fromVariants (variants (periods manifest ! j)))
               (newVariantCodecSummary v))" if "i < length (periods manifest)" for i v
    by (simp only: vs [OF that] set_filter mem_Collect_eq)
  from run len vs mem show ?thesis by blast
qed

theorem filterByCommonCodecs_keeps_common_witness:
  "periods mixedCodecs \<noteq> [] \<and>
   (\<exists>after. filterByCommonCodecs mixedCodecs = Inr after \<and>
      length (periods after) = 2 \<and>
      variants (periods after ! 0) = [variantOf None (Some (mp4Video ''avc1.42E01E''))] \<and>
      variants (periods after ! 1) = [variantOf None (Some (mp4Video ''avc1.4D401F''))])"
proof -
  have ne: "periods mixedCodecs \<noteq> []"
    by (simp add: mixedCodecs_def manifestOf_def)
  have len: "length (periods mixedCodecs) = 2"
    by (simp add: mixedCodecs_def manifestOf_def)
  from filterByCommonCodecs_keeps_common [OF ne]
  obtain after where run: "filterByCommonCodecs mixedCodecs = Inr after"
    and n: "length (periods after) = length (periods mixedCodecs)"
    and vs: "\<forall>i<length (periods mixedCodecs).
        variants (periods after ! i) =
          filter (\<lambda>v. \<forall>j<length (periods mixedCodecs).
                    contains (fromVariants (variants (periods mixedCodecs ! j)))
                      (newVariantCodecSummary v))
            (variants (periods mixedCodecs ! i))"
    by blast
  have all2: "\<And>P. (\<forall>j<2::nat. P j) \<longleftrightarrow> P 0 \<and> P 1"
    by (auto simp: less_Suc_eq numeral_2_eq_2)
  have "variants (periods after ! 0) = [variantOf None (Some (mp4Video ''avc1.42E01E''))]"
    using vs [rule_format, of 0]
    by (simp add: len all2)
       (simp add: mixedCodecs_def manifestOf_def periodOf_def variantOf_def webmVideo_def
          mp4Video_def fromVariants_def add_def contains_def equals_def
          newVariantCodecSummary_def codecBase_takeWhile)
  moreover have "variants (periods after ! 1) = [variantOf None (Some (mp4Video ''avc1.4D401F''))]"
    using vs [rule_format, of 1]
    by (simp add: len all2)
       (simp add: mixedCodecs_def manifestOf_def periodOf_def variantOf_def webmVideo_def
          mp4Video_def fromVariants_def add_def contains_def equals_def
          newVariantCodecSummary_def codecBase_takeWhile)
  ultimately show ?thesis
    using ne run n len by simp
qed


text \<open>The two end-to-end scenarios of the common-codecs filter, and a mixed one.\<close>

lemma filterByCommonCodecs_profiles_only:
  "filterByCommonCodecs twoProfiles = Inr twoProfiles"
  by (simp add: filterByCommonCodecs_def goog_asserts_assert_def twoProfiles_def manifestOf_def
     periodOf_def variantOf_def mp4Audio_def mp4Video_def fromVariants_def add_def contains_def equals_def
     newVariantCodecSummary_def codecBase_takeWhile includeAll_def onlyKeep_def)

lemma filterByCommonCodecs_disjoint:
  "filterByCommonCodecs disjointCodecs = Inr (manifestOf [periodOf [], periodOf []])"
  by (simp add: filterByCommonCodecs_def goog_asserts_assert_def disjointCodecs_def manifestOf_def
     periodOf_def variantOf_def webmVideo_def mp4Video_def fromVariants_def add_def contains_def equals_def
     newVariantCodecSummary_def codecBase_takeWhile includeAll_def onlyKeep_def)

lemma filterByCommonCodecs_mixed:
  "filterByCommonCodecs mixedCodecs =
     Inr (manifestOf [periodOf [variantOf None (Some (mp4Video ''avc1.42E01E''))],
                      periodOf [variantOf None (Some (mp4Video ''avc1.4D401F''))]])"
  by (simp add: filterByCommonCodecs_def goog_asserts_assert_def mixedCodecs_def manifestOf_def
     periodOf_def variantOf_def webmVideo_def mp4Video_def fromVariants_def add_def contains_def equals_def
     newVariantCodecSummary_def codecBase_takeWhile includeAll_def onlyKeep_def)

text \<open>
  C8. The assertion of \<open>filterByCommonCodecs\<close> holds exactly when the manifest has a
  period. With no period the call ends in the assertion error with the message of the
  source; with at least one period the assertion raises nothing and the call returns
  normally.
\<close>

theorem filterByCommonCodecs_assertion:
  "(goog_asserts_assert (length (periods manifest) > 0) message = None \<longleftrightarrow>
      periods manifest \<noteq> []) \<and>
   (periods manifest = [] \<longrightarrow>
      filterByCommonCodecs manifest =
        Inl (AssertionError ''There should be at least be one period'')) \<and>
   (periods manifest \<noteq> [] \<longrightarrow> (\<exists>after. filterByCommonCodecs manifest = Inr after))"
  by (simp add: filterByCommonCodecs_def goog_asserts_assert_def)

theorem filterByCommonCodecs_assertion_witness:
  "periods (manifestOf []) = [] \<and>
   filterByCommonCodecs (manifestOf []) =
     Inl (AssertionError ''There should be at least be one period'') \<and>
   periods twoProfiles \<noteq> [] \<and>
   (\<exists>after. filterByCommonCodecs twoProfiles = Inr after)"
proof -
  have e: "periods (manifestOf []) = []"
    by (simp add: manifestOf_def)
  have ne: "periods twoProfiles \<noteq> []"
    by (simp add: twoProfiles_def manifestOf_def)
  from e ne filterByCommonCodecs_assertion [of "manifestOf []"]
    filterByCommonCodecs_assertion [of twoProfiles]
  show ?thesis by blast
qed



section \<open>\<open>rollingFilter\<close>: the loop\<close>

lemma rollingLoop_ConsE:
  assumes "rollingLoop f w prev (p # ps) = (log, out, w', r)"
  obtains (reject) e where
      "rejected (f w (adjacencyPrune prev p)) = Some e"
      "log = [(w, adjacencyPrune prev p)]"
      "out = periodOut (f w (adjacencyPrune prev p)) # ps"
      "w' = worldOut (f w (adjacencyPrune prev p))"
      "r = Some e"
  | (resolve) log2 out2 where
      "rejected (f w (adjacencyPrune prev p)) = None"
      "rollingLoop f (worldOut (f w (adjacencyPrune prev p)))
         (Some (fromVariants (variants (periodOut (f w (adjacencyPrune prev p)))))) ps =
       (log2, out2, w', r)"
      "log = (w, adjacencyPrune prev p) # log2"
      "out = periodOut (f w (adjacencyPrune prev p)) # out2"
  using assms by (auto simp: Let_def split: option.splits prod.splits)

lemma rollingLoop_length_out:
  "rollingLoop f w prev ps = (log, out, w', r) \<Longrightarrow> length out = length ps"
proof (induction ps arbitrary: w prev log out)
  case Nil
  then show ?case by simp
next
  case (Cons p ps)
  from Cons.prems show ?case
  proof (cases rule: rollingLoop_ConsE)
    case (reject e)
    then show ?thesis by simp
  next
    case (resolve log2 out2)
    then show ?thesis using Cons.IH by simp
  qed
qed

lemma rollingLoop_length_log:
  "rollingLoop f w prev ps = (log, out, w', r) \<Longrightarrow>
   length log \<le> length ps \<and> (r = None \<longrightarrow> length log = length ps) \<and>
   (r \<noteq> None \<longrightarrow> log \<noteq> [])"
proof (induction ps arbitrary: w prev log out)
  case Nil
  then show ?case by simp
next
  case (Cons p ps)
  from Cons.prems show ?case
  proof (cases rule: rollingLoop_ConsE)
    case (reject e)
    then show ?thesis by simp
  next
    case (resolve log2 out2)
    then show ?thesis using Cons.IH [OF resolve(2)] by simp
  qed
qed

lemma rollingLoop_call_period:
  "rollingLoop f w prev ps = (log, out, w', r) \<Longrightarrow> i < length log \<Longrightarrow>
   snd (log ! i) =
     adjacencyPrune (if i = 0 then prev else Some (fromVariants (variants (out ! (i - 1)))))
       (ps ! i)"
proof (induction ps arbitrary: w prev log out i)
  case Nil
  then show ?case by simp
next
  case (Cons p ps)
  from Cons.prems(1) show ?case
  proof (cases rule: rollingLoop_ConsE)
    case (reject e)
    then show ?thesis using Cons.prems(2) by simp
  next
    case (resolve log2 out2)
    show ?thesis
    proof (cases i)
      case 0
      then show ?thesis using resolve by simp
    next
      case (Suc k)
      then have "k < length log2" using Cons.prems(2) resolve(3) by simp
      from Cons.IH [OF resolve(2) this] show ?thesis
        unfolding Suc resolve(3,4) by (cases k) simp_all
    qed
  qed
qed

lemma rollingLoop_call_result:
  "rollingLoop f w prev ps = (log, out, w', r) \<Longrightarrow> i < length log \<Longrightarrow>
   out ! i = periodOut (f (fst (log ! i)) (snd (log ! i)))"
proof (induction ps arbitrary: w prev log out i)
  case Nil
  then show ?case by simp
next
  case (Cons p ps)
  from Cons.prems(1) show ?case
  proof (cases rule: rollingLoop_ConsE)
    case (reject e)
    then show ?thesis using Cons.prems(2) by simp
  next
    case (resolve log2 out2)
    show ?thesis
    proof (cases i)
      case 0
      then show ?thesis using resolve by simp
    next
      case (Suc k)
      then have "k < length log2" using Cons.prems(2) resolve(3) by simp
      from Cons.IH [OF resolve(2) this] show ?thesis
        unfolding Suc resolve(3,4) by simp
    qed
  qed
qed

lemma rollingLoop_untouched:
  "rollingLoop f w prev ps = (log, out, w', r) \<Longrightarrow> length log \<le> i \<Longrightarrow> i < length ps \<Longrightarrow>
   out ! i = ps ! i"
proof (induction ps arbitrary: w prev log out i)
  case Nil
  then show ?case by simp
next
  case (Cons p ps)
  from Cons.prems(1) show ?case
  proof (cases rule: rollingLoop_ConsE)
    case (reject e)
    then show ?thesis using Cons.prems(2) by (cases i) simp_all
  next
    case (resolve log2 out2)
    then obtain k where i: "i = Suc k" using Cons.prems(2) by (cases i) simp_all
    then have "length log2 \<le> k" "k < length ps" using Cons.prems(2,3) resolve(3) by simp_all
    from Cons.IH [OF resolve(2) this] show ?thesis
      unfolding i resolve(4) by simp
  qed
qed

lemma rollingLoop_call_world:
  "rollingLoop f w prev ps = (log, out, w', r) \<Longrightarrow> i < length log \<Longrightarrow>
   fst (log ! i) =
     (if i = 0 then w else worldOut (f (fst (log ! (i - 1))) (snd (log ! (i - 1)))))"
proof (induction ps arbitrary: w prev log out i)
  case Nil
  then show ?case by simp
next
  case (Cons p ps)
  from Cons.prems(1) show ?case
  proof (cases rule: rollingLoop_ConsE)
    case (reject e)
    then show ?thesis using Cons.prems(2) by simp
  next
    case (resolve log2 out2)
    show ?thesis
    proof (cases i)
      case 0
      then show ?thesis using resolve by simp
    next
      case (Suc k)
      then have "k < length log2" using Cons.prems(2) resolve(3) by simp
      from Cons.IH [OF resolve(2) this] show ?thesis
        unfolding Suc resolve(3) by (cases k) simp_all
    qed
  qed
qed

lemma rollingLoop_call_outcome:
  "rollingLoop f w prev ps = (log, out, w', r) \<Longrightarrow> i < length log \<Longrightarrow>
   rejected (f (fst (log ! i)) (snd (log ! i))) = (if Suc i = length log then r else None)"
proof (induction ps arbitrary: w prev log out i)
  case Nil
  then show ?case by simp
next
  case (Cons p ps)
  from Cons.prems(1) show ?case
  proof (cases rule: rollingLoop_ConsE)
    case (reject e)
    then show ?thesis using Cons.prems(2) by simp
  next
    case (resolve log2 out2)
    show ?thesis
    proof (cases i)
      case 0
      show ?thesis
      proof (cases log2)
        case Nil
        have "r = None"
          using resolve(2) rollingLoop_length_log [OF resolve(2)] Nil by auto
        then show ?thesis using 0 resolve Nil by simp
      next
        case (Cons c cs)
        then show ?thesis using 0 resolve by simp
      qed
    next
      case (Suc k)
      then have "k < length log2" using Cons.prems(2) resolve(3) by simp
      from Cons.IH [OF resolve(2) this] show ?thesis
        unfolding Suc resolve(3) by simp
    qed
  qed
qed

lemma rollingLoop_final_world:
  "rollingLoop f w prev ps = (log, out, w', r) \<Longrightarrow>
   w' = (if log = [] then w else worldOut (f (fst (last log)) (snd (last log))))"
proof (induction ps arbitrary: w prev log out)
  case Nil
  then show ?case by simp
next
  case (Cons p ps)
  from Cons.prems(1) show ?case
  proof (cases rule: rollingLoop_ConsE)
    case (reject e)
    then show ?thesis by simp
  next
    case (resolve log2 out2)
    from Cons.IH [OF resolve(2)] show ?thesis
      unfolding resolve(3) by simp
  qed
qed


subsection \<open>Three runs\<close>

text \<open>
  A filter that removes nothing on three periods whose shared summaries shrink (the third
  period ends empty though it shares a summary with the first: only the second period's
  set prunes it); the same filter when the second period has nothing in common with the
  first; and a filter that rejects at its second call.
\<close>

lemmas example_defs = keepAll_def rejectOnCall_def avcVariant_def vp9Variant_def narrowing_def
  alternating_def manifestOf_def periodOf_def variantOf_def mp4Video_def webmVideo_def

lemmas eval_defs = rollingFilter_def adjacencyPrune_def fromVariants_def add_def contains_def
  equals_def newVariantCodecSummary_def codecBase_takeWhile Let_def
  numeral_2_eq_2 numeral_3_eq_3

lemma rolling_narrowing:
  "rollingFilter keepAll 0 narrowing =
     \<lparr> manifestAfter =
         manifestOf [periodOf [avcVariant, vp9Variant], periodOf [vp9Variant], periodOf []],
       worldAfter = 3,
       calls = [(0, periodOf [avcVariant, vp9Variant]), (1, periodOf [vp9Variant]),
                (2, periodOf [])],
       rejection = None \<rparr>"
  by (simp add: example_defs eval_defs)

lemma rolling_alternating:
  "rollingFilter keepAll 0 alternating =
     \<lparr> manifestAfter = manifestOf [periodOf [avcVariant], periodOf [], periodOf []],
       worldAfter = 3,
       calls = [(0, periodOf [avcVariant]), (1, periodOf []), (2, periodOf [])],
       rejection = None \<rparr>"
  by (simp add: example_defs eval_defs)

lemma rolling_rejected:
  "rollingFilter (rejectOnCall (Suc 0)) 0 narrowing =
     \<lparr> manifestAfter =
         manifestOf [periodOf [avcVariant, vp9Variant], periodOf [vp9Variant],
                     periodOf [avcVariant]],
       worldAfter = 2,
       calls = [(0, periodOf [avcVariant, vp9Variant]), (1, periodOf [vp9Variant])],
       rejection = Some ''rejected'' \<rparr>"
  by (simp add: example_defs eval_defs)


section \<open>\<open>rollingFilter\<close>: order, failure, cascade\<close>

lemma rollingFilter_loop:
  obtains log out w' r where
    "rollingLoop f w None (periods m) = (log, out, w', r)"
    "rollingFilter f w m =
       \<lparr> manifestAfter = m\<lparr>periods := out\<rparr>, worldAfter = w', calls = log, rejection = r \<rparr>"
proof -
  obtain log out w' r where loop: "rollingLoop f w None (periods m) = (log, out, w', r)"
    by (cases "rollingLoop f w None (periods m)") auto
  then have "rollingFilter f w m =
       \<lparr> manifestAfter = m\<lparr>periods := out\<rparr>, worldAfter = w', calls = log, rejection = r \<rparr>"
    by (simp add: rollingFilter_def)
  with loop show ?thesis by (rule that)
qed

lemma adjacencyPrune_None: "adjacencyPrune None p = p"
  by (simp add: adjacencyPrune_def)

lemma adjacencyPrune_Some:
  "adjacencyPrune (Some prev) p =
   p\<lparr>variants := filter (\<lambda>v. contains prev (newVariantCodecSummary v)) (variants p)\<rparr>"
  by (simp add: adjacencyPrune_def)

text \<open>
  C2. The calls of the injected filter follow the timeline: the call number \<open>i\<close> is on
  period \<open>i\<close>, there are no more calls than periods, and as many when the promise
  resolves. The first period is handed to the filter as it was given. Every later period
  \<open>i\<close> is handed to it with its variant list replaced by the subsequence whose summary is
  contained in the set built from the variant list that the filter left in period
  \<open>i - 1\<close>, and with nothing else changed; no other period enters. That call is made after
  the call on period \<open>i - 1\<close> has resolved, in the state that call left, and what the
  filter leaves is the period of the manifest afterwards.
\<close>

theorem rollingFilter_timeline_order:
  "let run = rollingFilter f w m; log = calls run;
       after = periods (manifestAfter run); before = periods m
   in length after = length before \<and>
      length log \<le> length before \<and>
      (rejection run = None \<longrightarrow> length log = length before) \<and>
      (0 < length log \<longrightarrow> log ! 0 = (w, before ! 0)) \<and>
      (\<forall>i. 0 < i \<and> i < length log \<longrightarrow>
         snd (log ! i) =
           (before ! i)\<lparr>variants :=
              filter (\<lambda>v. contains (fromVariants (variants (after ! (i - 1))))
                        (newVariantCodecSummary v))
                (variants (before ! i))\<rparr> \<and>
         fst (log ! i) = worldOut (f (fst (log ! (i - 1))) (snd (log ! (i - 1)))) \<and>
         rejected (f (fst (log ! (i - 1))) (snd (log ! (i - 1)))) = None) \<and>
      (\<forall>i<length log. after ! i = periodOut (f (fst (log ! i)) (snd (log ! i))))"
proof -
  obtain log out w' r where loop: "rollingLoop f w None (periods m) = (log, out, w', r)"
    and run: "rollingFilter f w m =
       \<lparr> manifestAfter = m\<lparr>periods := out\<rparr>, worldAfter = w', calls = log, rejection = r \<rparr>"
    by (rule rollingFilter_loop)
  have len: "length out = length (periods m)"
    using loop by (rule rollingLoop_length_out)
  have log: "length log \<le> length (periods m)" "r = None \<longrightarrow> length log = length (periods m)"
    using rollingLoop_length_log [OF loop] by simp_all
  have first: "log ! 0 = (w, periods m ! 0)" if "0 < length log"
    using rollingLoop_call_period [OF loop that] rollingLoop_call_world [OF loop that]
    by (simp add: adjacencyPrune_None prod_eq_iff)
  have later: "snd (log ! i) =
           (periods m ! i)\<lparr>variants :=
              filter (\<lambda>v. contains (fromVariants (variants (out ! (i - 1))))
                        (newVariantCodecSummary v))
                (variants (periods m ! i))\<rparr> \<and>
         fst (log ! i) = worldOut (f (fst (log ! (i - 1))) (snd (log ! (i - 1)))) \<and>
         rejected (f (fst (log ! (i - 1))) (snd (log ! (i - 1)))) = None"
    if "0 < i \<and> i < length log" for i
  proof -
    from that have i: "i < length log" and pos: "i \<noteq> 0" and pred: "i - 1 < length log"
      and notlast: "Suc (i - 1) \<noteq> length log"
      by arith+
    show ?thesis
      using rollingLoop_call_period [OF loop i] rollingLoop_call_world [OF loop i]
        rollingLoop_call_outcome [OF loop pred] pos notlast
      by (simp add: adjacencyPrune_Some)
  qed
  have result: "out ! i = periodOut (f (fst (log ! i)) (snd (log ! i)))" if "i < length log" for i
    using loop that by (rule rollingLoop_call_result)
  from len log first later result show ?thesis
    unfolding Let_def run by simp
qed


theorem rollingFilter_timeline_order_witness:
  "length (calls (rollingFilter keepAll 0 narrowing)) = 3 \<and>
   rejection (rollingFilter keepAll 0 narrowing) = None \<and>
   calls (rollingFilter keepAll 0 narrowing) ! 0 = (0, periods narrowing ! 0) \<and>
   snd (calls (rollingFilter keepAll 0 narrowing) ! 2) =
     (periods narrowing ! 2)\<lparr>variants :=
        filter (\<lambda>v. contains
                  (fromVariants
                    (variants (periods (manifestAfter (rollingFilter keepAll 0 narrowing)) ! 1)))
                  (newVariantCodecSummary v))
          (variants (periods narrowing ! 2))\<rparr> \<and>
   snd (calls (rollingFilter keepAll 0 narrowing) ! 2) = periodOf [] \<and>
   periods (manifestAfter (rollingFilter keepAll 0 narrowing)) ! 2 =
     periodOut (keepAll (fst (calls (rollingFilter keepAll 0 narrowing) ! 2))
                  (snd (calls (rollingFilter keepAll 0 narrowing) ! 2)))"
proof -
  let ?run = "rollingFilter keepAll 0 narrowing"
  have n: "length (calls ?run) = 3"
    by (simp add: rolling_narrowing)
  have res: "rejection ?run = None"
    by (simp add: rolling_narrowing)
  have third: "snd (calls ?run ! 2) = periodOf []"
    by (simp add: rolling_narrowing)
  note t = rollingFilter_timeline_order [of keepAll 0 narrowing, unfolded Let_def]
  from t n have first: "calls ?run ! 0 = (0, periods narrowing ! 0)"
    by simp
  from t have "0 < (2::nat) \<and> 2 < length (calls ?run) \<longrightarrow>
    snd (calls ?run ! 2) =
     (periods narrowing ! 2)\<lparr>variants :=
        filter (\<lambda>v. contains
                  (fromVariants (variants (periods (manifestAfter ?run) ! (2 - 1))))
                  (newVariantCodecSummary v))
          (variants (periods narrowing ! 2))\<rparr>"
    by blast
  with n have pruned: "snd (calls ?run ! 2) =
     (periods narrowing ! 2)\<lparr>variants :=
        filter (\<lambda>v. contains
                  (fromVariants (variants (periods (manifestAfter ?run) ! 1)))
                  (newVariantCodecSummary v))
          (variants (periods narrowing ! 2))\<rparr>"
    by simp
  from t have "\<forall>i<length (calls ?run). periods (manifestAfter ?run) ! i =
      periodOut (keepAll (fst (calls ?run ! i)) (snd (calls ?run ! i)))"
    by blast
  with n have out: "periods (manifestAfter ?run) ! 2 =
      periodOut (keepAll (fst (calls ?run ! 2)) (snd (calls ?run ! 2)))"
    by simp
  from n res first pruned third out show ?thesis by blast
qed



text \<open>
  C10. On a manifest with no period \<open>rollingFilter\<close> resolves, makes no call of the
  injected filter (the log is empty and the filter's state is the initial one) and leaves
  the manifest as it was.
\<close>

theorem rollingFilter_no_periods:
  "periods m = [] \<Longrightarrow>
   rollingFilter f w m =
     \<lparr> manifestAfter = m, worldAfter = w, calls = [], rejection = None \<rparr>"
  by (simp add: rollingFilter_def)

theorem rollingFilter_no_periods_witness:
  "periods (manifestOf []) = [] \<and>
   rollingFilter (rejectOnCall 0) 0 (manifestOf []) =
     \<lparr> manifestAfter = manifestOf [], worldAfter = 0, calls = [], rejection = None \<rparr>"
proof -
  have e: "periods (manifestOf []) = []"
    by (simp add: manifestOf_def)
  from e rollingFilter_no_periods [OF e, of "rejectOnCall 0" 0] show ?thesis by blast
qed



text \<open>
  C4. If the call of the injected filter on period \<open>k\<close> rejects with \<open>e\<close>, then
  \<open>rollingFilter\<close> rejects with \<open>e\<close> and that call was the last one: the calls on the
  periods before \<open>k\<close> resolved and left their periods as the filter returned them, period
  \<open>k\<close> was pruned against the set of period \<open>k - 1\<close> (not at all when \<open>k = 0\<close>) and handed
  to the filter, and every period after \<open>k\<close> is as it was before the call, with no call of
  the filter on it (the log has \<open>k + 1\<close> entries, for the periods \<open>0\<close> to \<open>k\<close>).
\<close>

theorem rollingFilter_rejection:
  assumes "k < length (calls (rollingFilter f w m))"
    and "rejected (f (fst (calls (rollingFilter f w m) ! k))
                     (snd (calls (rollingFilter f w m) ! k))) = Some e"
  shows "let run = rollingFilter f w m; log = calls run;
             after = periods (manifestAfter run); before = periods m
         in rejection run = Some e \<and>
            length log = Suc k \<and> k < length before \<and> length after = length before \<and>
            (\<forall>i<k. rejected (f (fst (log ! i)) (snd (log ! i))) = None \<and>
                   after ! i = periodOut (f (fst (log ! i)) (snd (log ! i)))) \<and>
            snd (log ! k) =
              adjacencyPrune
                (if k = 0 then None else Some (fromVariants (variants (after ! (k - 1)))))
                (before ! k) \<and>
            after ! k = periodOut (f (fst (log ! k)) (snd (log ! k))) \<and>
            worldAfter run = worldOut (f (fst (log ! k)) (snd (log ! k))) \<and>
            (\<forall>j. k < j \<and> j < length before \<longrightarrow> after ! j = before ! j)"
proof -
  obtain log out w' r where loop: "rollingLoop f w None (periods m) = (log, out, w', r)"
    and run: "rollingFilter f w m =
       \<lparr> manifestAfter = m\<lparr>periods := out\<rparr>, worldAfter = w', calls = log, rejection = r \<rparr>"
    by (rule rollingFilter_loop)
  from assms have k: "k < length log"
    and rej: "rejected (f (fst (log ! k)) (snd (log ! k))) = Some e"
    by (simp_all add: run)
  from rollingLoop_call_outcome [OF loop k] rej
  have last: "length log = Suc k" and r: "r = Some e"
    by (simp_all split: if_splits)
  have kb: "k < length (periods m)"
    using rollingLoop_length_log [OF loop] k by simp
  have len: "length out = length (periods m)"
    using loop by (rule rollingLoop_length_out)
  have before: "rejected (f (fst (log ! i)) (snd (log ! i))) = None \<and>
      out ! i = periodOut (f (fst (log ! i)) (snd (log ! i)))" if "i < k" for i
  proof -
    from that last have i: "i < length log" and "Suc i \<noteq> length log" by simp_all
    then show ?thesis
      using rollingLoop_call_outcome [OF loop i] rollingLoop_call_result [OF loop i] by simp
  qed
  have arg: "snd (log ! k) =
      adjacencyPrune (if k = 0 then None else Some (fromVariants (variants (out ! (k - 1)))))
        (periods m ! k)"
    using loop k by (rule rollingLoop_call_period)
  have res: "out ! k = periodOut (f (fst (log ! k)) (snd (log ! k)))"
    using loop k by (rule rollingLoop_call_result)
  have ne: "log \<noteq> []"
    using last by auto
  then have "last log = log ! k"
    using last by (simp add: last_conv_nth)
  with ne have world: "w' = worldOut (f (fst (log ! k)) (snd (log ! k)))"
    using rollingLoop_final_world [OF loop] by simp
  have after: "out ! j = periods m ! j" if "k < j \<and> j < length (periods m)" for j
  proof -
    from that last have "length log \<le> j" "j < length (periods m)" by simp_all
    with loop show ?thesis by (rule rollingLoop_untouched)
  qed
  from r last kb len before arg res world after show ?thesis
    unfolding Let_def run by simp
qed


theorem rollingFilter_rejection_witness:
  "Suc 0 < length (calls (rollingFilter (rejectOnCall (Suc 0)) 0 narrowing)) \<and>
   rejected (rejectOnCall (Suc 0)
       (fst (calls (rollingFilter (rejectOnCall (Suc 0)) 0 narrowing) ! Suc 0))
       (snd (calls (rollingFilter (rejectOnCall (Suc 0)) 0 narrowing) ! Suc 0))) =
     Some ''rejected'' \<and>
   rejection (rollingFilter (rejectOnCall (Suc 0)) 0 narrowing) = Some ''rejected'' \<and>
   length (calls (rollingFilter (rejectOnCall (Suc 0)) 0 narrowing)) = 2 \<and>
   periods (manifestAfter (rollingFilter (rejectOnCall (Suc 0)) 0 narrowing)) ! 2 =
     periods narrowing ! 2"
proof -
  let ?run = "rollingFilter (rejectOnCall (Suc 0)) 0 narrowing"
  have k: "Suc 0 < length (calls ?run)"
    by (simp add: rolling_rejected)
  have rej: "rejected (rejectOnCall (Suc 0) (fst (calls ?run ! Suc 0))
      (snd (calls ?run ! Suc 0))) = Some ''rejected''"
    by (simp add: rolling_rejected rejectOnCall_def)
  have three: "length (periods narrowing) = 3"
    by (simp add: narrowing_def manifestOf_def)
  note t = rollingFilter_rejection [OF k rej, unfolded Let_def]
  from t have "rejection ?run = Some ''rejected''" "length (calls ?run) = Suc (Suc 0)"
    by blast+
  moreover from t have "Suc 0 < (2::nat) \<and> 2 < length (periods narrowing) \<longrightarrow>
      periods (manifestAfter ?run) ! 2 = periods narrowing ! 2"
    by blast
  ultimately show ?thesis
    using k rej three by simp
qed


lemma adjacencyPrune_empty: "variants (adjacencyPrune (Some []) p) = []"
  by (simp add: adjacencyPrune_def contains_def)

lemma rollingLoop_empty_previous:
  assumes noadd: "\<forall>w p. set (variants (periodOut (f w p))) \<subseteq> set (variants p)"
  shows "rollingLoop f w (Some []) ps = (log, out, w', None) \<Longrightarrow> q \<in> set out \<Longrightarrow>
    variants q = []"
proof (induction ps arbitrary: w log out)
  case Nil
  then show ?case by simp
next
  case (Cons p ps)
  from Cons.prems(1) show ?case
  proof (cases rule: rollingLoop_ConsE)
    case (reject e)
    then show ?thesis by simp
  next
    case (resolve log2 out2)
    let ?p1 = "periodOut (f w (adjacencyPrune (Some []) p))"
    have "set (variants ?p1) \<subseteq> set (variants (adjacencyPrune (Some []) p))"
      using noadd by blast
    then have empty: "variants ?p1 = []"
      by (simp add: adjacencyPrune_empty)
    then have "rollingLoop f (worldOut (f w (adjacencyPrune (Some []) p))) (Some []) ps =
        (log2, out2, w', None)"
      using resolve(2) by (simp add: fromVariants_Nil)
    from Cons.IH [OF this] have "q \<in> set out2 \<Longrightarrow> variants q = []" .
    with empty Cons.prems(2) resolve(4) show ?thesis by auto
  qed
qed

lemma rollingLoop_cascade:
  assumes noadd: "\<forall>w p. set (variants (periodOut (f w p))) \<subseteq> set (variants p)"
  shows "rollingLoop f w prev ps = (log, out, w', None) \<Longrightarrow> k < j \<Longrightarrow> j < length ps \<Longrightarrow>
    variants (out ! k) = [] \<Longrightarrow> variants (out ! j) = []"
proof (induction ps arbitrary: w prev log out k j)
  case Nil
  then show ?case by simp
next
  case (Cons p ps)
  from Cons.prems(1) show ?case
  proof (cases rule: rollingLoop_ConsE)
    case (reject e)
    then show ?thesis by simp
  next
    case (resolve log2 out2)
    from Cons.prems(2) obtain j' where j: "j = Suc j'" by (cases j) simp_all
    have j': "j' < length ps" using Cons.prems(3) j by simp
    have len: "length out2 = length ps"
      using resolve(2) by (rule rollingLoop_length_out)
    show ?thesis
    proof (cases k)
      case 0
      then have "variants (periodOut (f w (adjacencyPrune prev p))) = []"
        using Cons.prems(4) resolve(4) by simp
      then have "rollingLoop f (worldOut (f w (adjacencyPrune prev p))) (Some []) ps =
          (log2, out2, w', None)"
        using resolve(2) by (simp add: fromVariants_Nil)
      moreover have "out2 ! j' \<in> set out2"
        using j' len by simp
      ultimately have "variants (out2 ! j') = []"
        by (rule rollingLoop_empty_previous [OF noadd])
      then show ?thesis by (simp add: j resolve(4))
    next
      case (Suc k')
      then have "k' < j'" "variants (out2 ! k') = []"
        using Cons.prems(2,4) j resolve(4) by simp_all
      from Cons.IH [OF resolve(2) this(1) j' this(2)] show ?thesis
        by (simp add: j resolve(4))
    qed
  qed
qed

text \<open>
  C3. Let the injected filter never add a variant (the variants it leaves are among those
  it was given), and let \<open>rollingFilter\<close> resolve. If the variant list of period \<open>k\<close> is
  empty afterwards, so is that of every later period \<open>j\<close>: the set built from an empty
  list is empty, and pruning against it leaves no variant.
\<close>

theorem rollingFilter_cascading_empty:
  assumes "\<forall>w p. set (variants (periodOut (f w p))) \<subseteq> set (variants p)"
    and "rejection (rollingFilter f w m) = None"
    and "k < j" and "j < length (periods m)"
    and "variants (periods (manifestAfter (rollingFilter f w m)) ! k) = []"
  shows "variants (periods (manifestAfter (rollingFilter f w m)) ! j) = [] \<and>
    fromVariants (variants (periods (manifestAfter (rollingFilter f w m)) ! k)) = [] \<and>
    variants (adjacencyPrune
      (Some (fromVariants (variants (periods (manifestAfter (rollingFilter f w m)) ! k)))) p) = []"
proof -
  obtain log out w' r where loop: "rollingLoop f w None (periods m) = (log, out, w', r)"
    and run: "rollingFilter f w m =
       \<lparr> manifestAfter = m\<lparr>periods := out\<rparr>, worldAfter = w', calls = log, rejection = r \<rparr>"
    by (rule rollingFilter_loop)
  from assms(2) have "r = None" by (simp add: run)
  with loop have loop': "rollingLoop f w None (periods m) = (log, out, w', None)" by simp
  from assms(5) have k: "variants (out ! k) = []" by (simp add: run)
  from assms(1) loop' assms(3,4) k have "variants (out ! j) = []"
    by (rule rollingLoop_cascade)
  then show ?thesis
    using k by (simp add: run fromVariants_Nil adjacencyPrune_empty)
qed

theorem rollingFilter_cascading_empty_witness:
  "(\<forall>w p. set (variants (periodOut (keepAll w p))) \<subseteq> set (variants p)) \<and>
   rejection (rollingFilter keepAll 0 alternating) = None \<and>
   (1::nat) < 2 \<and> 2 < length (periods alternating) \<and>
   variants (periods alternating ! 2) = [avcVariant] \<and>
   variants (periods (manifestAfter (rollingFilter keepAll 0 alternating)) ! 0) = [avcVariant] \<and>
   variants (periods (manifestAfter (rollingFilter keepAll 0 alternating)) ! 1) = [] \<and>
   variants (periods (manifestAfter (rollingFilter keepAll 0 alternating)) ! 2) = []"
proof -
  let ?run = "rollingFilter keepAll 0 alternating"
  have noadd: "\<forall>w p. set (variants (periodOut (keepAll w p))) \<subseteq> set (variants p)"
    by (simp add: keepAll_def)
  have res: "rejection ?run = None"
    by (simp add: rolling_alternating)
  have three: "2 < length (periods alternating)"
    and last: "variants (periods alternating ! 2) = [avcVariant]"
    by (simp_all add: alternating_def manifestOf_def periodOf_def)
  have zero: "variants (periods (manifestAfter ?run) ! 0) = [avcVariant]"
    and one: "variants (periods (manifestAfter ?run) ! 1) = []"
    by (simp_all add: rolling_alternating manifestOf_def periodOf_def)
  have lt: "(1::nat) < 2" by simp
  from rollingFilter_cascading_empty [OF noadd res lt three one]
  have "variants (periods (manifestAfter ?run) ! 2) = []" by blast
  with noadd res lt three last zero one show ?thesis by blast
qed


section \<open>What the filters leave unchanged\<close>

lemma adjacencyPrune_frame:
  "Period.more (adjacencyPrune prev p) = Period.more p \<and>
   subseq (variants (adjacencyPrune prev p)) (variants p)"
  by (cases prev) (simp_all add: adjacencyPrune_def)

text \<open>
  C9. \<open>filterByCommonCodecs\<close> leaves the other fields of the manifest and the number of
  periods as they were, and in every period the other fields as they were and a
  subsequence of its variant list. \<open>rollingFilter\<close> leaves the other fields of the
  manifest and the number of periods as they were; what it does itself to a period before
  it hands it to the injected filter is to replace the variant list by a subsequence, and
  after the filter's call it keeps the period as the filter left it; a period with no call
  is unchanged. So when the injected filter too only narrows the variant list, every
  period ends with its other fields unchanged and a subsequence of its variants. The
  model returns the manifest as the call leaves it, where the source returns nothing and
  changes the manifest it was given.
\<close>

theorem filters_frame:
  "(\<forall>after. filterByCommonCodecs m = Inr after \<longrightarrow>
      Manifest.more after = Manifest.more m \<and>
      length (periods after) = length (periods m) \<and>
      (\<forall>i<length (periods m).
         Period.more (periods after ! i) = Period.more (periods m ! i) \<and>
         subseq (variants (periods after ! i)) (variants (periods m ! i)))) \<and>
   (let run = rollingFilter f w n; log = calls run;
        after = periods (manifestAfter run); before = periods n
    in Manifest.more (manifestAfter run) = Manifest.more n \<and>
       length after = length before \<and>
       length log \<le> length before \<and>
       (\<forall>i<length log.
          Period.more (snd (log ! i)) = Period.more (before ! i) \<and>
          subseq (variants (snd (log ! i))) (variants (before ! i)) \<and>
          after ! i = periodOut (f (fst (log ! i)) (snd (log ! i)))) \<and>
       (\<forall>i. length log \<le> i \<and> i < length before \<longrightarrow> after ! i = before ! i) \<and>
       ((\<forall>w p. Period.more (periodOut (f w p)) = Period.more p \<and>
                subseq (variants (periodOut (f w p))) (variants p)) \<longrightarrow>
        (\<forall>i<length before.
           Period.more (after ! i) = Period.more (before ! i) \<and>
           subseq (variants (after ! i)) (variants (before ! i)))))"
proof (intro conjI allI impI)
  fix after
  assume run: "filterByCommonCodecs m = Inr after"
  then have ne: "periods m \<noteq> []"
    by (auto simp: filterByCommonCodecs_def goog_asserts_assert_def split: if_splits)
  from run filterByCommonCodecs_nonempty [OF ne]
  have after: "after = m\<lparr>periods :=
      map (\<lambda>period. period\<lparr>variants :=
             filter (\<lambda>variant. contains (commonLoop True [] (periods m))
                       (newVariantCodecSummary variant))
               (variants period)\<rparr>)
        (periods m)\<rparr>"
    by simp
  show "Manifest.more after = Manifest.more m"
    by (simp add: after)
  show "length (periods after) = length (periods m)"
    by (simp add: after)
  show "Period.more (periods after ! i) = Period.more (periods m ! i)"
    if "i < length (periods m)" for i
    using that by (simp add: after)
  show "subseq (variants (periods after ! i)) (variants (periods m ! i))"
    if "i < length (periods m)" for i
    using that by (simp add: after)
next
  obtain log out w' r where loop: "rollingLoop f w None (periods n) = (log, out, w', r)"
    and run: "rollingFilter f w n =
       \<lparr> manifestAfter = n\<lparr>periods := out\<rparr>, worldAfter = w', calls = log, rejection = r \<rparr>"
    by (rule rollingFilter_loop)
  have len: "length out = length (periods n)"
    using loop by (rule rollingLoop_length_out)
  have log: "length log \<le> length (periods n)"
    using rollingLoop_length_log [OF loop] by simp
  have call: "Period.more (snd (log ! i)) = Period.more (periods n ! i) \<and>
      subseq (variants (snd (log ! i))) (variants (periods n ! i)) \<and>
      out ! i = periodOut (f (fst (log ! i)) (snd (log ! i)))" if "i < length log" for i
    using rollingLoop_call_period [OF loop that] rollingLoop_call_result [OF loop that]
    by (simp only: adjacencyPrune_frame simp_thms)
  have rest: "out ! i = periods n ! i" if "length log \<le> i \<and> i < length (periods n)" for i
    using loop that by (blast intro: rollingLoop_untouched)
  have narrow: "Period.more (out ! i) = Period.more (periods n ! i) \<and>
      subseq (variants (out ! i)) (variants (periods n ! i))"
    if f: "\<forall>w p. Period.more (periodOut (f w p)) = Period.more p \<and>
                subseq (variants (periodOut (f w p))) (variants p)"
      and i: "i < length (periods n)" for i
  proof (cases "i < length log")
    case True
    from f have "Period.more (periodOut (f (fst (log ! i)) (snd (log ! i)))) =
        Period.more (snd (log ! i))"
      and "subseq (variants (periodOut (f (fst (log ! i)) (snd (log ! i)))))
        (variants (snd (log ! i)))"
      by blast+
    with call [OF True] show ?thesis
      by (auto intro: subseq_order.trans)
  next
    case False
    with i rest [of i] show ?thesis by simp
  qed
  show "let run = rollingFilter f w n; log = calls run;
        after = periods (manifestAfter run); before = periods n
    in Manifest.more (manifestAfter run) = Manifest.more n \<and>
       length after = length before \<and>
       length log \<le> length before \<and>
       (\<forall>i<length log.
          Period.more (snd (log ! i)) = Period.more (before ! i) \<and>
          subseq (variants (snd (log ! i))) (variants (before ! i)) \<and>
          after ! i = periodOut (f (fst (log ! i)) (snd (log ! i)))) \<and>
       (\<forall>i. length log \<le> i \<and> i < length before \<longrightarrow> after ! i = before ! i) \<and>
       ((\<forall>w p. Period.more (periodOut (f w p)) = Period.more p \<and>
                subseq (variants (periodOut (f w p))) (variants p)) \<longrightarrow>
        (\<forall>i<length before.
           Period.more (after ! i) = Period.more (before ! i) \<and>
           subseq (variants (after ! i)) (variants (before ! i))))"
    unfolding Let_def run using len log call rest narrow by simp
qed

theorem filters_frame_witness:
  "filterByCommonCodecs mixedCodecs =
     Inr (manifestOf [periodOf [variantOf None (Some (mp4Video ''avc1.42E01E''))],
                      periodOf [variantOf None (Some (mp4Video ''avc1.4D401F''))]]) \<and>
   subseq [variantOf None (Some (mp4Video ''avc1.42E01E''))] (variants (periods mixedCodecs ! 0)) \<and>
   (\<forall>w p. Period.more (periodOut (keepAll w p)) = Period.more p \<and>
          subseq (variants (periodOut (keepAll w p))) (variants p)) \<and>
   length (periods (manifestAfter (rollingFilter keepAll 0 narrowing))) = 3 \<and>
   subseq (variants (periods (manifestAfter (rollingFilter keepAll 0 narrowing)) ! 2))
     (variants (periods narrowing ! 2))"
proof -
  let ?after = "manifestOf [periodOf [variantOf None (Some (mp4Video ''avc1.42E01E''))],
                      periodOf [variantOf None (Some (mp4Video ''avc1.4D401F''))]]"
  let ?run = "rollingFilter keepAll 0 narrowing"
  note t = filters_frame [of mixedCodecs keepAll 0 narrowing, unfolded Let_def]
  have run: "filterByCommonCodecs mixedCodecs = Inr ?after"
    by (rule filterByCommonCodecs_mixed)
  have two: "0 < length (periods mixedCodecs)"
    by (simp add: mixedCodecs_def manifestOf_def)
  from t run have "\<forall>i<length (periods mixedCodecs).
         Period.more (periods ?after ! i) = Period.more (periods mixedCodecs ! i) \<and>
         subseq (variants (periods ?after ! i)) (variants (periods mixedCodecs ! i))"
    by blast
  with two have "subseq (variants (periods ?after ! 0)) (variants (periods mixedCodecs ! 0))"
    by blast
  then have a: "subseq [variantOf None (Some (mp4Video ''avc1.42E01E''))]
      (variants (periods mixedCodecs ! 0))"
    by (simp add: manifestOf_def periodOf_def)
  have keep: "\<forall>w p. Period.more (periodOut (keepAll w p)) = Period.more p \<and>
          subseq (variants (periodOut (keepAll w p))) (variants p)"
    by (simp add: keepAll_def)
  have three: "length (periods narrowing) = 3"
    by (simp add: narrowing_def manifestOf_def)
  from t have len: "length (periods (manifestAfter ?run)) = length (periods narrowing)"
    by blast
  from t keep have "\<forall>i<length (periods narrowing).
           Period.more (periods (manifestAfter ?run) ! i) = Period.more (periods narrowing ! i) \<and>
           subseq (variants (periods (manifestAfter ?run) ! i)) (variants (periods narrowing ! i))"
    by blast
  with three have b: "subseq (variants (periods (manifestAfter ?run) ! 2))
      (variants (periods narrowing ! 2))"
    by simp
  from run a keep len three b show ?thesis by simp
qed


end
